theory Spec2Isabelle
  imports Main
begin

unbundle bit_operations_syntax

section \<open>The Hamming code of \<^verbatim>\<open>Hamming.py\<close>\<close>

subsection \<open>Data model\<close>

text \<open>
  The exceptions the class can raise. \<^verbatim>\<open>ValueError\<close> carries the text of the message and
  the number formatted into it (\<^verbatim>\<open>f"Data length must be {self.k}"\<close>); \<^verbatim>\<open>IndexError\<close>
  carries its message, which tells the explicit \<^verbatim>\<open>raise IndexError("Position out of range")\<close>
  from the errors the interpreter raises at a list subscript that is out of range.
  The specification calls the first LengthMismatch and the second PositionOutOfRange.
\<close>

datatype py_error = ValueError string nat | IndexError string

text \<open>
  An instance of \<^verbatim>\<open>class HammingCode\<close>: the attributes \<^verbatim>\<open>self.r\<close>, \<^verbatim>\<open>self.n\<close>,
  \<^verbatim>\<open>self.k\<close> and \<^verbatim>\<open>self.parity_positions\<close>. Lengths and 1-based positions are natural
  numbers; bit values are Python integers (\<^typ>\<open>int\<close>), since nothing in the class
  restricts the elements of a list to 0 and 1.
\<close>

record HammingCode =
  self_r :: nat
  self_n :: nat
  self_k :: nat
  parity_positions :: "nat list"

text \<open>
  \<^verbatim>\<open>__init__\<close>. The redundancy parameter is a natural number here: for a negative
  \<^verbatim>\<open>r\<close> Python evaluates \<^verbatim>\<open>2**r\<close> in floating point, which is outside this model.
  \<^verbatim>\<open>range(r)\<close> is \<open>[0..<r]\<close>. The two subtractions are on natural numbers; they never
  truncate, since \<open>1 \<le> 2 ^ r\<close> and \<open>r \<le> 2 ^ r - 1\<close> (proved below).
\<close>

definition HammingCode_init :: "nat \<Rightarrow> HammingCode" where
  "HammingCode_init r =
     (let n = 2 ^ r - 1 in
      \<lparr> self_r = r, self_n = n, self_k = n - r,
        parity_positions = map (\<lambda>i. 2 ^ i) [0..<r] \<rparr>)"

text \<open>
  Constructing an instance, \<^verbatim>\<open>HammingCode(r)\<close>, as a fallible operation: the body of
  \<^verbatim>\<open>__init__\<close> has no \<^verbatim>\<open>raise\<close> and no operation that fails on a natural number, so
  the only branch is the successful one.
\<close>

definition new :: "nat \<Rightarrow> py_error + HammingCode" where
  "new r = Inr (HammingCode_init r)"

subsection \<open>Encoding\<close>

text \<open>
  \<^verbatim>\<open>[i for i in range(1, n+1) if i & p]\<close>: the positions a parity position \<open>p\<close> covers.
  Python's condition is the truth value of the integer \<^verbatim>\<open>i & p\<close>, that is, it is not 0.
\<close>

definition covered :: "nat \<Rightarrow> nat \<Rightarrow> nat list" where
  "covered n p = filter (\<lambda>i. i AND p \<noteq> 0) [1..<n + 1]"

text \<open>
  The first loop of \<^verbatim>\<open>encode\<close>, over the positions still to visit, with the state
  \<open>(code, j)\<close>. The write \<^verbatim>\<open>code[i] = ...\<close> is in range, as \<open>i \<le> n\<close> and \<open>code\<close> has
  \<open>n + 1\<close> elements; the read \<^verbatim>\<open>data_bits[j]\<close> raises when \<open>j\<close> reaches the length.
\<close>

fun place_data :: "nat list \<Rightarrow> int list \<Rightarrow> nat list \<Rightarrow> int list \<Rightarrow> nat \<Rightarrow> py_error + int list" where
  "place_data pp data_bits [] code j = Inr code"
| "place_data pp data_bits (i # rest) code j =
     (if i \<notin> set pp then
        (if j < length data_bits
         then place_data pp data_bits rest (code[i := data_bits ! j]) (j + 1)
         else Inl (IndexError ''list index out of range''))
      else place_data pp data_bits rest code j)"

text \<open>
  The second loop of \<^verbatim>\<open>encode\<close>, over the parity positions still to visit. The reads
  \<^verbatim>\<open>code[i]\<close> are in range (\<open>i \<le> n\<close>); the write \<^verbatim>\<open>code[p] = ...\<close> raises when \<open>p\<close> is not
  an index of \<open>code\<close>. Python's \<^verbatim>\<open>%\<close> with a positive modulus is \<open>mod\<close> on \<^typ>\<open>int\<close>.
\<close>

fun compute_parity :: "nat \<Rightarrow> nat list \<Rightarrow> int list \<Rightarrow> py_error + int list" where
  "compute_parity n [] code = Inr code"
| "compute_parity n (p # ps) code =
     (let bits = map (\<lambda>i. code ! i) (covered n p) in
      if p < length code
      then compute_parity n ps (code[p := sum_list bits mod 2])
      else Inl (IndexError ''list assignment index out of range''))"

definition encode :: "HammingCode \<Rightarrow> int list \<Rightarrow> py_error + int list" where
  "encode self data_bits =
     (if length data_bits \<noteq> self_k self
      then Inl (ValueError ''Data length must be '' (self_k self))
      else
        case place_data (parity_positions self) data_bits [1..<self_n self + 1]
               (replicate (self_n self + 1) 0) 0 of
          Inl e \<Rightarrow> Inl e
        | Inr code \<Rightarrow>
            (case compute_parity (self_n self) (parity_positions self) code of
               Inl e \<Rightarrow> Inl e
             | Inr code' \<Rightarrow> Inr (drop 1 code')))"

subsection \<open>Decoding\<close>

text \<open>
  The syndrome loop of \<^verbatim>\<open>decode\<close>. It runs after the length check, so the reads
  \<^verbatim>\<open>codeword[i-1]\<close> for \<open>1 \<le> i \<le> n\<close> are in range.
\<close>

definition parity_check :: "nat \<Rightarrow> int list \<Rightarrow> nat \<Rightarrow> int" where
  "parity_check n codeword p = sum_list (map (\<lambda>i. codeword ! (i - 1)) (covered n p)) mod 2"

definition syndrome_of :: "HammingCode \<Rightarrow> int list \<Rightarrow> nat" where
  "syndrome_of self codeword =
     fold (\<lambda>p syndrome. if parity_check (self_n self) codeword p \<noteq> 0 then syndrome + p else syndrome)
       (parity_positions self) 0"

text \<open>
  \<^verbatim>\<open>[code[i-1] for i in range(1, self.n+1) if i not in self.parity_positions]\<close>
\<close>

definition extract_data :: "HammingCode \<Rightarrow> int list \<Rightarrow> int list" where
  "extract_data self code =
     map (\<lambda>i. code ! (i - 1))
       (filter (\<lambda>i. i \<notin> set (parity_positions self)) [1..<self_n self + 1])"

text \<open>
  \<^verbatim>\<open>decode\<close> on values: \<open>code\<close> is the copy of \<open>codeword\<close>. The subscript
  \<^verbatim>\<open>code[syndrome-1]\<close> raises when the syndrome exceeds the length.
\<close>

definition decode :: "HammingCode \<Rightarrow> int list \<Rightarrow> py_error + (int list \<times> bool)" where
  "decode self codeword =
     (if length codeword \<noteq> self_n self
      then Inl (ValueError ''Codeword length must be '' (self_n self))
      else
        let syndrome = syndrome_of self codeword;
            code = codeword
        in if syndrome \<noteq> 0
           then (if syndrome - 1 < length code
                 then Inr (extract_data self (code[syndrome - 1 := (code ! (syndrome - 1)) XOR 1]), True)
                 else Inl (IndexError ''list index out of range''))
           else Inr (extract_data self code, False))"

subsection \<open>Error simulation\<close>

text \<open>
  \<^verbatim>\<open>simulate_error\<close> on values. \<open>pos\<close> is any Python integer; past the range check
  \<open>pos - 1\<close> is not negative, and the subscript raises when the list is shorter than
  \<open>pos\<close> (the method does not check the length of \<open>codeword\<close>).
\<close>

definition simulate_error :: "HammingCode \<Rightarrow> int list \<Rightarrow> int \<Rightarrow> py_error + int list" where
  "simulate_error self codeword pos =
     (if pos < 1 \<or> pos > int (self_n self)
      then Inl (IndexError ''Position out of range'')
      else
        let cw = codeword; idx = nat (pos - 1)
        in if idx < length cw
           then Inr (cw[idx := (cw ! idx) XOR 1])
           else Inl (IndexError ''list index out of range''))"

subsection \<open>The methods on a store of list objects\<close>

text \<open>
  Python passes a list by reference, so whether a method changes its argument is a
  question about objects, not values. The store holds the list objects allocated so
  far; a reference is the index of its object; \<open>alloc\<close> adds a new object at the next
  free index. \<^verbatim>\<open>codeword.copy()\<close> allocates a new object with the elements of the old
  one, and \<^verbatim>\<open>cw[idx] ^= 1\<close> replaces the object at the reference \<open>cw\<close>.
\<close>

type_synonym ref = nat
type_synonym store = "int list list"

definition alloc :: "int list \<Rightarrow> store \<Rightarrow> ref \<times> store" where
  "alloc xs s = (length s, s @ [xs])"

text \<open>\<^verbatim>\<open>a[idx] ^= 1\<close> for an index in range of the object at \<open>a\<close>.\<close>

definition xor1_at :: "ref \<Rightarrow> nat \<Rightarrow> store \<Rightarrow> store" where
  "xor1_at a idx s = s[a := (s ! a)[idx := ((s ! a) ! idx) XOR 1]]"

text \<open>
  \<^verbatim>\<open>simulate_error\<close>: the argument \<open>codeword\<close> is a reference, the result is the
  reference \<open>cw\<close> of the copy, and the store after the call is returned with it.
\<close>

definition simulate_error_store ::
    "HammingCode \<Rightarrow> ref \<Rightarrow> int \<Rightarrow> store \<Rightarrow> (py_error + ref) \<times> store" where
  "simulate_error_store self codeword pos s =
     (if pos < 1 \<or> pos > int (self_n self)
      then (Inl (IndexError ''Position out of range''), s)
      else
        let (cw, s1) = alloc (s ! codeword) s;
            idx = nat (pos - 1)
        in if idx < length (s1 ! cw)
           then (Inr cw, xor1_at cw idx s1)
           else (Inl (IndexError ''list index out of range''), s1))"

text \<open>
  \<^verbatim>\<open>decode\<close>: \<open>code\<close> is the reference of the copy and \<open>data\<close> the reference of the new
  list built by the last comprehension. The lists \<open>bits\<close> of the syndrome loop are
  new objects that nothing refers to after the loop; they are left out of the store.
\<close>

definition decode_store ::
    "HammingCode \<Rightarrow> ref \<Rightarrow> store \<Rightarrow> (py_error + (ref \<times> bool)) \<times> store" where
  "decode_store self codeword s =
     (if length (s ! codeword) \<noteq> self_n self
      then (Inl (ValueError ''Codeword length must be '' (self_n self)), s)
      else
        let syndrome = syndrome_of self (s ! codeword);
            (code, s1) = alloc (s ! codeword) s
        in if syndrome \<noteq> 0
           then (if syndrome - 1 < length (s1 ! code)
                 then
                   let s2 = xor1_at code (syndrome - 1) s1;
                       (data, s3) = alloc (extract_data self (s2 ! code)) s2
                   in (Inr (data, True), s3)
                 else (Inl (IndexError ''list index out of range''), s1))
           else
             let (data, s3) = alloc (extract_data self (s1 ! code)) s1
             in (Inr (data, False), s3))"

section \<open>Auxiliary facts\<close>

subsection \<open>Instances built by the constructor, and the two loops of \<open>encode\<close>\<close>

lemma init_n: "self_n (HammingCode_init r) = 2 ^ r - 1"
  by (simp add: HammingCode_init_def Let_def)

lemma init_k: "self_k (HammingCode_init r) = 2 ^ r - 1 - r"
  by (simp add: HammingCode_init_def Let_def)

lemma init_pp: "parity_positions (HammingCode_init r) = map (\<lambda>i. 2 ^ i) [0..<r]"
  by (simp add: HammingCode_init_def Let_def)

lemma init_r: "self_r (HammingCode_init r) = r"
  by (simp add: HammingCode_init_def Let_def)

lemma r_le_n: "r \<le> 2 ^ r - (1::nat)"
proof -
  have "r < 2 ^ r" by (rule less_exp)
  then show ?thesis by linarith
qed

lemma pp_distinct: "distinct (map (\<lambda>i. (2::nat) ^ i) [0..<r])"
  by (simp add: distinct_map inj_on_def)

lemma pp_range: "p \<in> set (map (\<lambda>i. (2::nat) ^ i) [0..<r]) \<Longrightarrow> 1 \<le> p \<and> p \<le> 2 ^ r - 1"
proof -
  assume "p \<in> set (map (\<lambda>i. (2::nat) ^ i) [0..<r])"
  then obtain a where a: "a < r" "p = 2 ^ a" by auto
  have "(2::nat) ^ a < 2 ^ r" using a by simp
  moreover have "(1::nat) \<le> 2 ^ a" by simp
  ultimately show ?thesis using a by linarith
qed

lemma pp_disjoint: "a \<noteq> b \<Longrightarrow> (2::nat) ^ a AND 2 ^ b = 0"
  by (simp add: and_exp_eq_0_iff_not_bit bit_exp_iff)

lemma count_nonparity:
  "length (filter (\<lambda>i. i \<notin> set (map (\<lambda>i. (2::nat) ^ i) [0..<r])) [1..<2 ^ r - 1 + 1]) = 2 ^ r - 1 - r"
proof -
  let ?pp = "map (\<lambda>i. (2::nat) ^ i) [0..<r]"
  let ?L = "[1..<2 ^ r - 1 + 1] :: nat list"
  have sub: "set ?pp \<subseteq> set ?L"
    using pp_range [of _ r] by auto
  have "length (filter (\<lambda>i. i \<in> set ?pp) ?L) = card ({i. i \<in> set ?pp} \<inter> set ?L)"
    by (rule distinct_length_filter) simp
  also have "{i. i \<in> set ?pp} \<inter> set ?L = set ?pp" using sub by blast
  also have "card (set ?pp) = length ?pp" by (rule distinct_card [OF pp_distinct])
  finally have in_pp: "length (filter (\<lambda>i. i \<in> set ?pp) ?L) = r" by simp
  have "length (filter (\<lambda>i. i \<in> set ?pp) ?L) + length (filter (\<lambda>i. \<not> i \<in> set ?pp) ?L) = length ?L"
    by (rule sum_length_filter_compl)
  then show ?thesis using in_pp by simp
qed

lemma place_data_ok:
  "distinct ps \<Longrightarrow>
   j + length (filter (\<lambda>i. i \<notin> set pp) ps) \<le> length data \<Longrightarrow>
   \<exists>code'. place_data pp data ps code j = Inr code' \<and> length code' = length code \<and>
      (\<forall>i. i \<notin> set ps \<or> i \<in> set pp \<longrightarrow> code' ! i = code ! i) \<and>
      (set ps \<subseteq> {..<length code} \<longrightarrow> map (\<lambda>i. code' ! i) (filter (\<lambda>i. i \<notin> set pp) ps)
         = take (length (filter (\<lambda>i. i \<notin> set pp) ps)) (drop j data))"
proof (induction ps arbitrary: code j)
  case Nil
  then show ?case by simp
next
  case (Cons i ps)
  show ?case
  proof (cases "i \<in> set pp")
    case True
    from Cons.prems have "distinct ps" "j + length (filter (\<lambda>i. i \<notin> set pp) ps) \<le> length data"
      using True by simp_all
    from Cons.IH [OF this, of code] True show ?thesis by auto
  next
    case False
    from Cons.prems False have j: "j < length data" by simp
    from Cons.prems False have d: "distinct ps" "i \<notin> set ps"
      and l: "(j + 1) + length (filter (\<lambda>i. i \<notin> set pp) ps) \<le> length data"
      by simp_all
    from Cons.IH [OF d(1) l, of "code[i := data ! j]"]
    obtain code' where c: "place_data pp data ps (code[i := data ! j]) (j + 1) = Inr code'"
      "length code' = length code"
      "\<forall>x. x \<notin> set ps \<or> x \<in> set pp \<longrightarrow> code' ! x = code[i := data ! j] ! x"
      "set ps \<subseteq> {..<length code} \<longrightarrow> map (\<lambda>i. code' ! i) (filter (\<lambda>i. i \<notin> set pp) ps)
         = take (length (filter (\<lambda>i. i \<notin> set pp) ps)) (drop (j + 1) data)"
      by auto
    have 1: "place_data pp data (i # ps) code j = Inr code'"
      using False j c(1) by simp
    have 2: "\<forall>x. x \<notin> set (i # ps) \<or> x \<in> set pp \<longrightarrow> code' ! x = code ! x"
    proof (intro allI impI)
      fix x assume x: "x \<notin> set (i # ps) \<or> x \<in> set pp"
      then have "x \<noteq> i" using False by auto
      moreover have "code' ! x = code[i := data ! j] ! x" using c(3) x by auto
      ultimately show "code' ! x = code ! x" by simp
    qed
    have 3: "set (i # ps) \<subseteq> {..<length code} \<longrightarrow> map (\<lambda>i. code' ! i) (filter (\<lambda>i. i \<notin> set pp) (i # ps))
         = take (length (filter (\<lambda>i. i \<notin> set pp) (i # ps))) (drop j data)"
    proof
      assume a: "set (i # ps) \<subseteq> {..<length code}"
      then have "code' ! i = data ! j" using c(3) d(2) by simp
      moreover have "drop j data = data ! j # drop (j + 1) data"
        using j by (simp add: Cons_nth_drop_Suc)
      ultimately show "map (\<lambda>i. code' ! i) (filter (\<lambda>i. i \<notin> set pp) (i # ps))
         = take (length (filter (\<lambda>i. i \<notin> set pp) (i # ps))) (drop j data)"
        using False c(4) a by simp
    qed
    from 1 2 3 c(2) show ?thesis by blast
  qed
qed


lemma covered_distinct: "distinct (covered n p)"
  by (simp add: covered_def)

lemma covered_set: "set (covered n p) = {i. 1 \<le> i \<and> i \<le> n \<and> i AND p \<noteq> 0}"
  by (auto simp: covered_def)

lemma sum_list_nth_update:
  "distinct L \<Longrightarrow> p < length xs \<Longrightarrow>
   sum_list (map (\<lambda>i. xs[p := v] ! i) L)
     = sum_list (map (\<lambda>i. xs ! i) L) + (if p \<in> set L then v - xs ! p else (0::int))"
  by (induction L) (auto simp: nth_list_update)

lemma map_nth_update_notin:
  "p \<notin> set L \<Longrightarrow> map (\<lambda>i. xs[p := v] ! i) L = map (\<lambda>i. xs ! i) L"
  by (induction L) auto

lemma compute_parity_ok:
  "distinct ps \<Longrightarrow> (\<forall>p\<in>set ps. p < length code) \<Longrightarrow>
   (\<forall>p\<in>set ps. \<forall>q\<in>set ps. p \<noteq> q \<longrightarrow> p AND q = 0) \<Longrightarrow>
   \<exists>code'. compute_parity n ps code = Inr code' \<and> length code' = length code \<and>
      (\<forall>i. i \<notin> set ps \<longrightarrow> code' ! i = code ! i) \<and>
      (\<forall>p\<in>set ps. code' ! p = sum_list (map (\<lambda>i. code ! i) (covered n p)) mod 2)"
proof (induction ps arbitrary: code)
  case Nil
  then show ?case by simp
next
  case (Cons p ps)
  let ?v = "sum_list (map (\<lambda>i. code ! i) (covered n p)) mod 2"
  let ?c1 = "code[p := ?v]"
  from Cons.prems have p: "p < length code" "p \<notin> set ps" "distinct ps" by simp_all
  have len: "\<forall>q\<in>set ps. q < length ?c1" using Cons.prems(2) by simp
  have dis: "\<forall>a\<in>set ps. \<forall>b\<in>set ps. a \<noteq> b \<longrightarrow> a AND b = 0"
    using Cons.prems(3) by simp
  from Cons.IH [OF p(3) len dis]
  obtain code' where c: "compute_parity n ps ?c1 = Inr code'" "length code' = length ?c1"
    "\<forall>i. i \<notin> set ps \<longrightarrow> code' ! i = ?c1 ! i"
    "\<forall>q\<in>set ps. code' ! q = sum_list (map (\<lambda>i. ?c1 ! i) (covered n q)) mod 2"
    by blast
  have 1: "compute_parity n (p # ps) code = Inr code'"
    using p(1) c(1) by (simp add: Let_def)
  have 2: "\<forall>i. i \<notin> set (p # ps) \<longrightarrow> code' ! i = code ! i"
    using c(3) by simp
  have 3: "\<forall>q\<in>set (p # ps). code' ! q = sum_list (map (\<lambda>i. code ! i) (covered n q)) mod 2"
  proof
    fix q assume q: "q \<in> set (p # ps)"
    show "code' ! q = sum_list (map (\<lambda>i. code ! i) (covered n q)) mod 2"
    proof (cases "q = p")
      case True
      then show ?thesis using c(3) p(1,2) by simp
    next
      case False
      then have qin: "q \<in> set ps" using q by simp
      have "p AND q = 0" using Cons.prems(3) False qin by simp
      then have "p \<notin> set (covered n q)" by (simp add: covered_set)
      then have eq: "map (\<lambda>i. ?c1 ! i) (covered n q) = map (\<lambda>i. code ! i) (covered n q)"
        by (rule map_nth_update_notin)
      have "code' ! q = sum_list (map (\<lambda>i. ?c1 ! i) (covered n q)) mod 2"
        using c(4) qin by blast
      then show ?thesis by (simp only: eq)
    qed
  qed
  from 1 2 3 c(2) show ?case by auto
qed

lemma and_self_pow: "p \<in> set (map (\<lambda>i. (2::nat) ^ i) [0..<r]) \<Longrightarrow> p AND p \<noteq> 0"
  by auto

lemma pp_pairwise:
  "\<forall>p\<in>set (map (\<lambda>i. (2::nat) ^ i) [0..<r]). \<forall>q\<in>set (map (\<lambda>i. (2::nat) ^ i) [0..<r]). p \<noteq> q \<longrightarrow> p AND q = 0"
  by (auto simp: pp_disjoint)


lemma map_drop1_nth:
  "\<forall>i\<in>set L. 1 \<le> i \<Longrightarrow> xs \<noteq> [] \<Longrightarrow>
   map (\<lambda>i. drop 1 xs ! (i - 1)) L = map (\<lambda>i. xs ! i) L"
proof (rule map_cong [OF refl])
  fix i assume a: "\<forall>i\<in>set L. 1 \<le> i" "xs \<noteq> []" "i \<in> set L"
  then obtain x xs' where xs: "xs = x # xs'" by (cases xs) auto
  obtain m where m: "i = Suc m" using a(1,3) by (cases i) auto
  show "drop 1 xs ! (i - 1) = xs ! i" by (simp add: xs m)
qed

lemma parity_even_after:
  fixes code0 code1 :: "int list"
  assumes len: "p < length code0"
    and zero: "code0 ! p = 0"
    and same: "\<forall>i\<in>set (covered n p). i \<noteq> p \<longrightarrow> code1 ! i = code0 ! i"
    and par: "code1 ! p = sum_list (map (\<lambda>i. code0 ! i) (covered n p)) mod 2"
    and cov: "p \<in> set (covered n p)"
  shows "sum_list (map (\<lambda>i. code1 ! i) (covered n p)) mod 2 = 0"
proof -
  let ?S = "sum_list (map (\<lambda>i. code0 ! i) (covered n p))"
  have "map (\<lambda>i. code1 ! i) (covered n p) = map (\<lambda>i. code0[p := code1 ! p] ! i) (covered n p)"
  proof (rule map_cong [OF refl])
    fix i assume "i \<in> set (covered n p)"
    then show "code1 ! i = code0[p := code1 ! p] ! i"
      using same len by (cases "i = p") simp_all
  qed
  then have "sum_list (map (\<lambda>i. code1 ! i) (covered n p))
      = sum_list (map (\<lambda>i. code0[p := code1 ! p] ! i) (covered n p))"
    by (rule arg_cong)
  also have "\<dots> = ?S + (code1 ! p - code0 ! p)"
    using sum_list_nth_update [OF covered_distinct len, of "code1 ! p" n p] cov by simp
  also have "\<dots> = ?S + ?S mod 2" using zero par by simp
  finally have "sum_list (map (\<lambda>i. code1 ! i) (covered n p)) mod 2 = (?S + ?S mod 2) mod 2"
    by simp
  also have "\<dots> = 0" by presburger
  finally show ?thesis .
qed

lemma encode_init_ok:
  assumes len: "length data = 2 ^ r - 1 - r"
  shows "\<exists>c. encode (HammingCode_init r) data = Inr c \<and> length c = 2 ^ r - 1 \<and>
           extract_data (HammingCode_init r) c = data \<and>
           (\<forall>p\<in>set (parity_positions (HammingCode_init r)).
              parity_check (2 ^ r - 1) c p = 0) \<and>
           (\<forall>p\<in>set (parity_positions (HammingCode_init r)). c ! (p - 1) \<in> {0, 1})"
proof -
  let ?n = "2 ^ r - 1 :: nat"
  let ?pp = "map (\<lambda>i. (2::nat) ^ i) [0..<r]"
  let ?np = "filter (\<lambda>i. i \<notin> set ?pp) [1..<?n + 1]"
  let ?z = "replicate (?n + 1) (0::int)"
  have cnt: "length ?np = ?n - r" by (rule count_nonparity)
  have "0 + length ?np \<le> length data" using cnt len by simp
  from place_data_ok [OF _ this, of ?z]
  obtain code0 where c0: "place_data ?pp data [1..<?n + 1] ?z 0 = Inr code0"
    "length code0 = ?n + 1"
    "\<forall>i. i \<notin> set [1..<?n + 1] \<or> i \<in> set ?pp \<longrightarrow> code0 ! i = ?z ! i"
    "map (\<lambda>i. code0 ! i) ?np = take (length ?np) (drop 0 data)"
    by auto
  have np_data: "map (\<lambda>i. code0 ! i) ?np = data" using c0(4) cnt len by simp
  have pp_len: "\<forall>p\<in>set ?pp. p < length code0"
    using pp_range [of _ r] c0(2) by fastforce
  from compute_parity_ok [OF pp_distinct pp_len pp_pairwise, of ?n]
  obtain code1 where c1: "compute_parity ?n ?pp code0 = Inr code1"
    "length code1 = length code0"
    "\<forall>i. i \<notin> set ?pp \<longrightarrow> code1 ! i = code0 ! i"
    "\<forall>p\<in>set ?pp. code1 ! p = sum_list (map (\<lambda>i. code0 ! i) (covered ?n p)) mod 2"
    by blast
  let ?c = "drop 1 code1"
  have enc: "encode (HammingCode_init r) data = Inr ?c"
    using len c0(1) c1(1) by (simp add: encode_def init_n init_k init_pp)
  have lenc: "length ?c = ?n" using c1(2) c0(2) by simp
  have ne: "code1 \<noteq> []" using c1(2) c0(2) by auto
  have "map (\<lambda>i. ?c ! (i - 1)) ?np = map (\<lambda>i. code1 ! i) ?np"
    by (rule map_drop1_nth) (simp_all add: ne)
  also have "\<dots> = map (\<lambda>i. code0 ! i) ?np"
    by (rule map_cong [OF refl]) (use c1(3) in simp)
  finally have m: "map (\<lambda>i. ?c ! (i - 1)) ?np = data"
    using np_data by (simp only:)
  have ext: "extract_data (HammingCode_init r) ?c = data"
    unfolding extract_data_def init_n init_pp by (rule m)
  have chk: "\<forall>p\<in>set (parity_positions (HammingCode_init r)). parity_check ?n ?c p = 0"
  proof
    fix p assume "p \<in> set (parity_positions (HammingCode_init r))"
    then have pin: "p \<in> set ?pp" by (simp add: init_pp)
    have rng: "1 \<le> p \<and> p \<le> ?n" using pp_range [OF pin] .
    have pl: "p < length code0" using pp_len pin by blast
    have z: "code0 ! p = 0"
    proof -
      have "code0 ! p = ?z ! p" using c0(3) pin by blast
      also have "\<dots> = 0" by (rule nth_replicate) (use rng in linarith)
      finally show ?thesis .
    qed
    have cov: "p \<in> set (covered ?n p)"
      using rng and_self_pow [OF pin] by (simp add: covered_set)
    have same: "\<forall>i\<in>set (covered ?n p). i \<noteq> p \<longrightarrow> code1 ! i = code0 ! i"
    proof (intro ballI impI)
      fix i assume i: "i \<in> set (covered ?n p)" "i \<noteq> p"
      have "i \<notin> set ?pp"
      proof
        assume "i \<in> set ?pp"
        then have "i AND p = 0" using pp_pairwise [of r] pin i(2) by blast
        then show False using i(1) by (simp add: covered_set)
      qed
      then show "code1 ! i = code0 ! i" using c1(3) by blast
    qed
    have par: "code1 ! p = sum_list (map (\<lambda>i. code0 ! i) (covered ?n p)) mod 2"
      using c1(4) pin by blast
    have "map (\<lambda>i. ?c ! (i - 1)) (covered ?n p) = map (\<lambda>i. code1 ! i) (covered ?n p)"
      by (rule map_drop1_nth) (simp_all add: covered_set ne)
    then have "parity_check ?n ?c p = sum_list (map (\<lambda>i. code1 ! i) (covered ?n p)) mod 2"
      by (simp only: parity_check_def)
    also have "\<dots> = 0" by (rule parity_even_after [OF pl z same par cov])
    finally show "parity_check ?n ?c p = 0" .
  qed
  have bit: "\<forall>p\<in>set (parity_positions (HammingCode_init r)). ?c ! (p - 1) \<in> {0, 1}"
  proof
    fix p assume "p \<in> set (parity_positions (HammingCode_init r))"
    then have pin: "p \<in> set ?pp" by (simp add: init_pp)
    have "map (\<lambda>i. ?c ! (i - 1)) [p] = map (\<lambda>i. code1 ! i) [p]"
      by (rule map_drop1_nth) (use pp_range [OF pin] ne in simp_all)
    then have "?c ! (p - 1) = code1 ! p" by simp
    also have "\<dots> = sum_list (map (\<lambda>i. code0 ! i) (covered ?n p)) mod 2"
      using c1(4) pin by blast
    finally have "0 \<le> ?c ! (p - 1) \<and> ?c ! (p - 1) < 2" by simp
    then show "?c ! (p - 1) \<in> {0, 1}" by auto
  qed
  from enc lenc ext chk bit show ?thesis by blast
qed

subsection \<open>The syndrome\<close>

lemma fold_syndrome:
  "fold (\<lambda>p syndrome. if f p then syndrome + p else syndrome) ps (acc::nat)
     = acc + sum_list (map (\<lambda>p. if f p then p else 0) ps)"
  by (induction ps arbitrary: acc) auto

lemma syndrome_of_sum:
  "syndrome_of self codeword
     = sum_list (map (\<lambda>p. if parity_check (self_n self) codeword p \<noteq> 0 then p else 0)
         (parity_positions self))"
  by (simp add: syndrome_of_def fold_syndrome)

lemma syndrome_of_zero:
  "\<forall>p\<in>set (parity_positions self). parity_check (self_n self) codeword p = 0 \<Longrightarrow>
   syndrome_of self codeword = 0"
  by (simp add: syndrome_of_sum)

lemma sum_pow2: "sum_list (map (\<lambda>i. (2::nat) ^ i) [0..<r]) = 2 ^ r - 1"
  by (induction r) simp_all

lemma sum_pow2_le:
  "sum_list (map (\<lambda>p. if f p then p else 0) (map (\<lambda>i. (2::nat) ^ i) [0..<r])) \<le> 2 ^ r - 1"
proof -
  have "sum_list (map (\<lambda>p. if f p then p else 0) (map (\<lambda>i. (2::nat) ^ i) [0..<r]))
      \<le> sum_list (map (\<lambda>p. p) (map (\<lambda>i. (2::nat) ^ i) [0..<r]))"
    by (rule sum_list_mono) simp
  then show ?thesis by (simp add: sum_pow2)
qed

lemma syndrome_of_init_le: "syndrome_of (HammingCode_init r) codeword \<le> 2 ^ r - 1"
  by (simp only: syndrome_of_sum init_pp sum_pow2_le)


lemma sum_bits:
  "sum_list (map (\<lambda>p. if e AND p \<noteq> 0 then p else 0) (map (\<lambda>i. (2::nat) ^ i) [0..<r])) = take_bit r e"
proof -
  have "map (\<lambda>p. if e AND p \<noteq> 0 then p else 0) (map (\<lambda>i. (2::nat) ^ i) [0..<r])
      = map (\<lambda>i. push_bit i (of_bool (bit e i))) [0..<r]"
    by (simp add: and_exp_eq_0_iff_not_bit push_bit_eq_mult)
  then have "sum_list (map (\<lambda>p. if e AND p \<noteq> 0 then p else 0) (map (\<lambda>i. (2::nat) ^ i) [0..<r]))
      = sum_list (map (\<lambda>i. push_bit i (of_bool (bit e i))) [0..<r])"
    by (rule arg_cong)
  also have "\<dots> = (\<Sum>i = 0..<r. push_bit i (of_bool (bit e i)))"
    by (simp add: interv_sum_list_conv_sum_set_nat)
  also have "\<dots> = take_bit r e" by (simp only: take_bit_sum [symmetric])
  finally show ?thesis .
qed

subsection \<open>Flipping one bit\<close>

lemma xor_one_parity: "((x::int) XOR 1) mod 2 = (x + 1) mod 2"
proof -
  have "even (x XOR 1) \<longleftrightarrow> even (x + 1)" by (simp add: even_xor_iff)
  then show ?thesis by presburger
qed

lemma xor_one_twice: "((x::int) XOR 1) XOR 1 = x"
  by (simp add: xor.assoc)


lemma sum_list_nth_update_shift:
  "distinct L \<Longrightarrow> \<forall>i\<in>set L. 1 \<le> i \<Longrightarrow> 1 \<le> e \<Longrightarrow> e - 1 < length xs \<Longrightarrow>
   sum_list (map (\<lambda>i. xs[e - 1 := v] ! (i - 1)) L)
     = sum_list (map (\<lambda>i. xs ! (i - 1)) L) + (if e \<in> set L then v - xs ! (e - 1) else (0::int))"
proof (induction L)
  case Nil
  then show ?case by simp
next
  case (Cons a L)
  have eq: "a - 1 = e - 1 \<longleftrightarrow> a = e" using Cons.prems by auto
  have IH: "sum_list (map (\<lambda>i. xs[e - 1 := v] ! (i - 1)) L)
     = sum_list (map (\<lambda>i. xs ! (i - 1)) L) + (if e \<in> set L then v - xs ! (e - 1) else 0)"
    using Cons by simp
  have notin: "a \<notin> set L" using Cons.prems by simp
  show ?case
  proof (cases "a = e")
    case True
    then have "xs[e - 1 := v] ! (a - 1) = v" using Cons.prems by simp
    then show ?thesis using IH True notin by simp
  next
    case False
    then have "xs[e - 1 := v] ! (a - 1) = xs ! (a - 1)" using eq by simp
    then show ?thesis using IH False by simp
  qed
qed

lemma parity_check_flip:
  assumes e: "1 \<le> e" "e \<le> length c"
  shows "parity_check n (c[e - 1 := (c ! (e - 1)) XOR 1]) p
     = (parity_check n c p + (if e \<in> set (covered n p) then 1 else 0)) mod 2"
proof -
  let ?S = "sum_list (map (\<lambda>i. c ! (i - 1)) (covered n p))"
  let ?x = "c ! (e - 1)"
  have lt: "e - 1 < length c" using e by linarith
  have one: "\<forall>i\<in>set (covered n p). 1 \<le> i" by (simp add: covered_set)
  have S': "sum_list (map (\<lambda>i. c[e - 1 := ?x XOR 1] ! (i - 1)) (covered n p))
      = ?S + (if e \<in> set (covered n p) then (?x XOR 1) - ?x else 0)"
    by (rule sum_list_nth_update_shift [OF covered_distinct one e(1) lt])
  show ?thesis
  proof (cases "e \<in> set (covered n p)")
    case True
    have "(?S + ((?x XOR 1) - ?x)) mod 2 = (?S + 1) mod 2"
      using xor_one_parity [of ?x] by presburger
    also have "\<dots> = (?S mod 2 + 1) mod 2" by presburger
    finally show ?thesis using True S' by (simp only: parity_check_def if_True)
  next
    case False
    then show ?thesis using S' by (simp add: parity_check_def)
  qed
qed

lemma syndrome_of_flip:
  assumes chk: "\<forall>p\<in>set (parity_positions (HammingCode_init r)). parity_check (2 ^ r - 1) c p = 0"
    and len: "length c = 2 ^ r - 1"
    and e: "1 \<le> e" "e \<le> 2 ^ r - 1"
  shows "syndrome_of (HammingCode_init r) (c[e - 1 := (c ! (e - 1)) XOR 1]) = e"
proof -
  let ?n = "2 ^ r - 1 :: nat"
  let ?pp = "map (\<lambda>i. (2::nat) ^ i) [0..<r]"
  let ?c' = "c[e - 1 := (c ! (e - 1)) XOR 1]"
  have el: "e \<le> length c" using e len by simp
  have "map (\<lambda>p. if parity_check ?n ?c' p \<noteq> 0 then p else 0) ?pp
      = map (\<lambda>p. if e AND p \<noteq> 0 then p else 0) ?pp"
  proof (rule map_cong [OF refl])
    fix p assume p: "p \<in> set ?pp"
    then have "parity_check ?n c p = 0" using chk by (auto simp: init_pp)
    then have "parity_check ?n ?c' p = (if e \<in> set (covered ?n p) then 1 else 0)"
      using parity_check_flip [OF e(1) el, of ?n p] by simp
    then have "parity_check ?n ?c' p \<noteq> 0 \<longleftrightarrow> e AND p \<noteq> 0"
      using e by (simp add: covered_set)
    then show "(if parity_check ?n ?c' p \<noteq> 0 then p else 0) = (if e AND p \<noteq> 0 then p else 0)"
      by simp
  qed
  then have "syndrome_of (HammingCode_init r) ?c' = take_bit r e"
    by (simp only: syndrome_of_sum init_n init_pp sum_bits)
  also have "\<dots> = e"
  proof -
    have "e < 2 ^ r" using e by linarith
    then show ?thesis by (simp add: take_bit_nat_eq_self)
  qed
  finally show ?thesis .
qed

lemma decode_valid:
  assumes chk: "\<forall>p\<in>set (parity_positions (HammingCode_init r)). parity_check (2 ^ r - 1) c p = 0"
    and len: "length c = 2 ^ r - 1"
  shows "decode (HammingCode_init r) c = Inr (extract_data (HammingCode_init r) c, False)"
proof -
  have "syndrome_of (HammingCode_init r) c = 0"
    by (rule syndrome_of_zero) (use chk in \<open>simp add: init_n\<close>)
  then show ?thesis using len by (simp add: decode_def init_n)
qed

lemma decode_flip:
  assumes chk: "\<forall>p\<in>set (parity_positions (HammingCode_init r)). parity_check (2 ^ r - 1) c p = 0"
    and len: "length c = 2 ^ r - 1"
    and e: "1 \<le> e" "e \<le> 2 ^ r - 1"
  shows "decode (HammingCode_init r) (c[e - 1 := (c ! (e - 1)) XOR 1])
           = Inr (extract_data (HammingCode_init r) c, True)"
proof -
  let ?c' = "c[e - 1 := (c ! (e - 1)) XOR 1]"
  have syn: "syndrome_of (HammingCode_init r) ?c' = e"
    by (rule syndrome_of_flip [OF chk len e])
  have lt: "e - 1 < length c" using e len by linarith
  show ?thesis
    unfolding decode_def Let_def syn init_n
    using e lt len by (simp add: xor_one_twice)
qed

subsection \<open>Error simulation\<close>

lemma simulate_error_in_range:
  assumes "1 \<le> pos" "pos \<le> int (self_n self)" "length codeword = self_n self"
  shows "simulate_error self codeword pos
           = Inr (codeword[nat (pos - 1) := (codeword ! nat (pos - 1)) XOR 1])"
  using assms by (simp add: simulate_error_def Let_def)

subsection \<open>Encoding followed by decoding\<close>

lemma encode_then_flip:
  assumes len: "length data = self_k (HammingCode_init r)"
    and p: "1 \<le> p" "p \<le> int (self_n (HammingCode_init r))"
  shows "\<exists>c c'. encode (HammingCode_init r) data = Inr c
           \<and> simulate_error (HammingCode_init r) c p = Inr c'
           \<and> decode (HammingCode_init r) c' = Inr (data, True)"
proof -
  from len have "length data = 2 ^ r - 1 - r" by (simp add: init_k)
  from encode_init_ok [OF this]
  obtain c where c: "encode (HammingCode_init r) data = Inr c" "length c = 2 ^ r - 1"
    "extract_data (HammingCode_init r) c = data"
    "\<forall>p\<in>set (parity_positions (HammingCode_init r)). parity_check (2 ^ r - 1) c p = 0"
    by blast
  let ?e = "nat p"
  have "?e \<le> self_n (HammingCode_init r)" using p(2) by linarith
  then have e2: "?e \<le> 2 ^ r - 1" by (simp only: init_n)
  have e1: "1 \<le> ?e" using p(1) by linarith
  note e = e1 e2
  have idx: "nat (p - 1) = ?e - 1" by simp
  have lenc: "length c = self_n (HammingCode_init r)" using c(2) by (simp add: init_n)
  have sim: "simulate_error (HammingCode_init r) c p = Inr (c[?e - 1 := (c ! (?e - 1)) XOR 1])"
    using simulate_error_in_range [OF p lenc] by (simp only: idx)
  have dec: "decode (HammingCode_init r) (c[?e - 1 := (c ! (?e - 1)) XOR 1]) = Inr (data, True)"
    using decode_flip [OF c(4) c(2) e] by (simp only: c(3))
  from c(1) sim dec show ?thesis by blast
qed

lemma encode_then_decode:
  assumes len: "length data = self_k (HammingCode_init r)"
  shows "\<exists>c. encode (HammingCode_init r) data = Inr c
           \<and> decode (HammingCode_init r) c = Inr (data, False)"
proof -
  from len have "length data = 2 ^ r - 1 - r" by (simp add: init_k)
  from encode_init_ok [OF this]
  obtain c where c: "encode (HammingCode_init r) data = Inr c" "length c = 2 ^ r - 1"
    "extract_data (HammingCode_init r) c = data"
    "\<forall>p\<in>set (parity_positions (HammingCode_init r)). parity_check (2 ^ r - 1) c p = 0"
    by blast
  have "decode (HammingCode_init r) c = Inr (data, False)"
    using decode_valid [OF c(4) c(2)] by (simp only: c(3))
  with c(1) show ?thesis by blast
qed

lemma sum_list_split_one:
  "distinct L \<Longrightarrow> p \<in> set L \<Longrightarrow>
   sum_list (map f L) = (f p :: int) + sum_list (map f (filter (\<lambda>i. i \<noteq> p) L))"
proof (induction L)
  case Nil
  then show ?case by simp
next
  case (Cons a L)
  show ?case
  proof (cases "a = p")
    case True
    then have "p \<notin> set L" using Cons.prems by simp
    then have "filter (\<lambda>i. i \<noteq> p) L = L" by (auto simp: filter_id_conv)
    then show ?thesis using True by simp
  next
    case False
    then show ?thesis using Cons by simp
  qed
qed

lemma parity_bit_is_sum_of_others:
  fixes c :: "int list"
  assumes chk: "parity_check n c p = 0"
    and bit: "c ! (p - 1) \<in> {0, 1}"
    and cov: "p \<in> set (covered n p)"
  shows "c ! (p - 1)
     = sum_list (map (\<lambda>i. c ! (i - 1)) (filter (\<lambda>i. i AND p \<noteq> 0 \<and> i \<noteq> p) [1..<n + 1])) mod 2"
proof -
  let ?f = "\<lambda>i. c ! (i - 1)"
  let ?O = "sum_list (map ?f (filter (\<lambda>i. i AND p \<noteq> 0 \<and> i \<noteq> p) [1..<n + 1]))"
  have fl: "filter (\<lambda>i. i \<noteq> p) (covered n p) = filter (\<lambda>i. i AND p \<noteq> 0 \<and> i \<noteq> p) [1..<n + 1]"
    by (simp add: covered_def conj_commute)
  have "sum_list (map ?f (covered n p)) = ?f p + ?O"
    using sum_list_split_one [OF covered_distinct cov, of ?f] by (simp only: fl)
  then have "(?f p + ?O) mod 2 = 0" using chk by (simp add: parity_check_def)
  moreover have "?f p = 0 \<or> ?f p = 1" using bit by simp
  ultimately show ?thesis by presburger
qed

lemma encode_layout:
  assumes len: "length data = self_k (HammingCode_init r)"
  shows "\<exists>c. encode (HammingCode_init r) data = Inr c
     \<and> length c = self_n (HammingCode_init r)
     \<and> map (\<lambda>i. c ! (i - 1))
         (filter (\<lambda>i. i \<notin> set (parity_positions (HammingCode_init r)))
            [1..<self_n (HammingCode_init r) + 1]) = data
     \<and> (\<forall>p\<in>set (parity_positions (HammingCode_init r)).
          c ! (p - 1) = sum_list (map (\<lambda>i. c ! (i - 1))
             (filter (\<lambda>i. i AND p \<noteq> 0 \<and> i \<noteq> p) [1..<self_n (HammingCode_init r) + 1])) mod 2)
     \<and> (\<forall>p\<in>set (parity_positions (HammingCode_init r)).
          sum_list (map (\<lambda>i. c ! (i - 1))
             (filter (\<lambda>i. i AND p \<noteq> 0) [1..<self_n (HammingCode_init r) + 1])) mod 2 = 0)"
proof -
  let ?h = "HammingCode_init r"
  from len have "length data = 2 ^ r - 1 - r" by (simp add: init_k)
  from encode_init_ok [OF this]
  obtain c where c: "encode ?h data = Inr c" "length c = 2 ^ r - 1"
    "extract_data ?h c = data"
    "\<forall>p\<in>set (parity_positions ?h). parity_check (2 ^ r - 1) c p = 0"
    "\<forall>p\<in>set (parity_positions ?h). c ! (p - 1) \<in> {0, 1}"
    by blast
  have 1: "length c = self_n ?h" using c(2) by (simp only: init_n)
  have 2: "map (\<lambda>i. c ! (i - 1))
         (filter (\<lambda>i. i \<notin> set (parity_positions ?h)) [1..<self_n ?h + 1]) = data"
    using c(3) by (simp only: extract_data_def)
  have 3: "\<forall>p\<in>set (parity_positions ?h).
          c ! (p - 1) = sum_list (map (\<lambda>i. c ! (i - 1))
             (filter (\<lambda>i. i AND p \<noteq> 0 \<and> i \<noteq> p) [1..<self_n ?h + 1])) mod 2"
  proof
    fix p assume p: "p \<in> set (parity_positions ?h)"
    then have pin: "p \<in> set (map (\<lambda>i. (2::nat) ^ i) [0..<r])" by (simp only: init_pp)
    have cov: "p \<in> set (covered (2 ^ r - 1) p)"
      using pp_range [OF pin] and_self_pow [OF pin] by (simp add: covered_set)
    have "c ! (p - 1) = sum_list (map (\<lambda>i. c ! (i - 1))
             (filter (\<lambda>i. i AND p \<noteq> 0 \<and> i \<noteq> p) [1..<(2 ^ r - 1) + 1])) mod 2"
      using c(4) c(5) p cov by (intro parity_bit_is_sum_of_others) blast+
    then show "c ! (p - 1) = sum_list (map (\<lambda>i. c ! (i - 1))
             (filter (\<lambda>i. i AND p \<noteq> 0 \<and> i \<noteq> p) [1..<self_n ?h + 1])) mod 2"
      by (simp only: init_n)
  qed
  have 4: "\<forall>p\<in>set (parity_positions ?h).
          sum_list (map (\<lambda>i. c ! (i - 1))
             (filter (\<lambda>i. i AND p \<noteq> 0) [1..<self_n ?h + 1])) mod 2 = 0"
    using c(4) by (simp only: parity_check_def covered_def init_n)
  from c(1) 1 2 3 4 show ?thesis by blast
qed

lemma decode_init_returns:
  assumes len: "length codeword = self_n (HammingCode_init r)"
  shows "syndrome_of (HammingCode_init r) codeword \<le> self_n (HammingCode_init r)
     \<and> (syndrome_of (HammingCode_init r) codeword \<noteq> 0 \<longrightarrow>
          syndrome_of (HammingCode_init r) codeword - 1 < length codeword)
     \<and> (\<exists>data corrected. decode (HammingCode_init r) codeword = Inr (data, corrected))"
proof -
  let ?s = "syndrome_of (HammingCode_init r) codeword"
  have le: "?s \<le> self_n (HammingCode_init r)"
    using syndrome_of_init_le [of r codeword] by (simp only: init_n)
  then have lt: "?s \<noteq> 0 \<longrightarrow> ?s - 1 < length codeword" using len by linarith
  have "\<exists>data corrected. decode (HammingCode_init r) codeword = Inr (data, corrected)"
    using len lt by (auto simp: decode_def Let_def)
  with le lt show ?thesis by blast
qed

lemma simulate_error_twice:
  assumes len: "length x = self_n self" and p: "1 \<le> p" "p \<le> int (self_n self)"
  shows "\<exists>y. simulate_error self x p = Inr y \<and> simulate_error self y p = Inr x"
proof -
  let ?i = "nat (p - 1)"
  let ?y = "x[?i := (x ! ?i) XOR 1]"
  have i: "?i < length x" using p len by linarith
  have 1: "simulate_error self x p = Inr ?y" by (rule simulate_error_in_range [OF p len])
  have "length ?y = self_n self" using len by simp
  from simulate_error_in_range [OF p this]
  have "simulate_error self ?y p = Inr (?y[?i := (?y ! ?i) XOR 1])" .
  also have "?y[?i := (?y ! ?i) XOR 1] = x" using i by (simp add: xor_one_twice)
  finally show ?thesis using 1 by blast
qed

subsection \<open>The methods on the store\<close>

lemma xor1_at_fresh:
  "xor1_at (length s) idx (s @ [xs]) = s @ [xs[idx := (xs ! idx) XOR 1]]"
  by (simp add: xor1_at_def)

lemma simulate_error_store_eq:
  "simulate_error_store self a pos s =
     (if pos < 1 \<or> pos > int (self_n self)
      then (Inl (IndexError ''Position out of range''), s)
      else if nat (pos - 1) < length (s ! a)
           then (Inr (length s), s @ [(s ! a)[nat (pos - 1) := ((s ! a) ! nat (pos - 1)) XOR 1]])
           else (Inl (IndexError ''list index out of range''), s @ [s ! a]))"
  by (simp add: simulate_error_store_def alloc_def Let_def xor1_at_fresh)

lemma simulate_error_store_frame:
  "\<exists>new. snd (simulate_error_store self a pos s) = s @ new"
  by (simp add: simulate_error_store_eq)

lemma simulate_error_store_refines:
  "simulate_error self (s ! a) pos =
     (case fst (simulate_error_store self a pos s) of
        Inl e \<Rightarrow> Inl e
      | Inr cw \<Rightarrow> Inr (snd (simulate_error_store self a pos s) ! cw))"
  by (simp add: simulate_error_store_eq simulate_error_def Let_def)

lemma decode_store_eq:
  "decode_store self a s =
     (if length (s ! a) \<noteq> self_n self
      then (Inl (ValueError ''Codeword length must be '' (self_n self)), s)
      else if syndrome_of self (s ! a) \<noteq> 0
           then (if syndrome_of self (s ! a) - 1 < length (s ! a)
                 then (Inr (length s + 1, True),
                       s @ [(s ! a)[syndrome_of self (s ! a) - 1 :=
                                     ((s ! a) ! (syndrome_of self (s ! a) - 1)) XOR 1],
                            extract_data self
                              ((s ! a)[syndrome_of self (s ! a) - 1 :=
                                     ((s ! a) ! (syndrome_of self (s ! a) - 1)) XOR 1])])
                 else (Inl (IndexError ''list index out of range''), s @ [s ! a]))
           else (Inr (length s + 1, False), s @ [s ! a, extract_data self (s ! a)]))"
  by (simp add: decode_store_def alloc_def Let_def xor1_at_fresh nth_append)

lemma decode_store_frame:
  "\<exists>new. snd (decode_store self a s) = s @ new"
  by (simp add: decode_store_eq)

lemma decode_store_refines:
  "decode self (s ! a) =
     (case fst (decode_store self a s) of
        Inl e \<Rightarrow> Inl e
      | Inr (d, b) \<Rightarrow> Inr (snd (decode_store self a s) ! d, b))"
  by (simp add: decode_store_eq decode_def Let_def nth_append)

section \<open>The claims\<close>

subsection \<open>C1\<close>

text \<open>
  C1. For every \<open>r \<ge> 2\<close>, every data sequence of length \<open>k\<close> with bits in \<open>{0,1}\<close> and
  every position \<open>p\<close> with \<open>1 \<le> p \<le> n\<close>: \<open>encode\<close> returns a codeword, \<open>simulate_error\<close>
  returns it with the bit at \<open>p\<close> flipped, and \<open>decode\<close> of that returns the original data
  together with \<open>corrected = True\<close>.
\<close>

theorem C1_single_error_corrected:
  assumes "2 \<le> r"
    and "length data = self_k (HammingCode_init r)"
    and "set data \<subseteq> {0, 1}"
    and "1 \<le> p" and "p \<le> int (self_n (HammingCode_init r))"
  shows "\<exists>c c'. encode (HammingCode_init r) data = Inr c
           \<and> simulate_error (HammingCode_init r) c p = Inr c'
           \<and> decode (HammingCode_init r) c' = Inr (data, True)"
  using assms(2,4,5) by (rule encode_then_flip)

text \<open>C1 at \<open>r = 3\<close>, the data \<open>[1,0,1,1]\<close> and the position 6.\<close>

theorem C1_witness:
  "(2::nat) \<le> 3 \<and> length [1, 0, 1, 1 :: int] = self_k (HammingCode_init 3)
   \<and> set [1, 0, 1, 1 :: int] \<subseteq> {0, 1}
   \<and> (1::int) \<le> 6 \<and> (6::int) \<le> int (self_n (HammingCode_init 3))
   \<and> (\<exists>c c'. encode (HammingCode_init 3) [1, 0, 1, 1] = Inr c
           \<and> simulate_error (HammingCode_init 3) c 6 = Inr c'
           \<and> decode (HammingCode_init 3) c' = Inr ([1, 0, 1, 1], True))"
proof -
  have h1: "(2::nat) \<le> 3" by simp
  have h2: "length [1, 0, 1, 1 :: int] = self_k (HammingCode_init 3)" by code_simp
  have h3: "set [1, 0, 1, 1 :: int] \<subseteq> {0, 1}" by simp
  have h4: "(1::int) \<le> 6" by simp
  have h5: "(6::int) \<le> int (self_n (HammingCode_init 3))" by code_simp
  from C1_single_error_corrected [OF h1 h2 h3 h4 h5] h1 h2 h3 h4 h5
  show ?thesis by (intro conjI)
qed

subsection \<open>C2\<close>

text \<open>
  C2. For every \<open>r \<ge> 2\<close> and every data sequence of length \<open>k\<close> with bits in \<open>{0,1}\<close>:
  \<open>decode\<close> of the codeword \<open>encode\<close> returns is exactly that data sequence, with
  \<open>corrected = False\<close>.
\<close>

theorem C2_round_trip:
  assumes "2 \<le> r"
    and "length data = self_k (HammingCode_init r)"
    and "set data \<subseteq> {0, 1}"
  shows "\<exists>c. encode (HammingCode_init r) data = Inr c
           \<and> decode (HammingCode_init r) c = Inr (data, False)"
  using assms(2) by (rule encode_then_decode)

text \<open>C2 at \<open>r = 3\<close> and the data \<open>[1,0,1,1]\<close>.\<close>

theorem C2_witness:
  "(2::nat) \<le> 3 \<and> length [1, 0, 1, 1 :: int] = self_k (HammingCode_init 3)
   \<and> set [1, 0, 1, 1 :: int] \<subseteq> {0, 1}
   \<and> (\<exists>c. encode (HammingCode_init 3) [1, 0, 1, 1] = Inr c
           \<and> decode (HammingCode_init 3) c = Inr ([1, 0, 1, 1], False))"
proof -
  have h1: "(2::nat) \<le> 3" by simp
  have h2: "length [1, 0, 1, 1 :: int] = self_k (HammingCode_init 3)" by code_simp
  have h3: "set [1, 0, 1, 1 :: int] \<subseteq> {0, 1}" by simp
  from C2_round_trip [OF h1 h2 h3] h1 h2 h3
  show ?thesis by (intro conjI)
qed

subsection \<open>C3\<close>

text \<open>
  C3, as the code computes it. With \<open>r = 3\<close> the instance has \<open>n = 7\<close>, \<open>k = 4\<close> and the
  parity positions 1, 2 and 4. The data bits \<open>[1,0,1,1]\<close> go to the positions 3, 5, 6
  and 7, the three parity sums are 2, 3 and 2, and \<open>encode\<close> returns \<open>[0,1,1,0,0,1,1]\<close>.
  Flipping position 3 of that codeword and decoding returns \<open>([1,0,1,1], True)\<close>.
\<close>

theorem C3_example:
  "HammingCode_init 3 = \<lparr> self_r = 3, self_n = 7, self_k = 4, parity_positions = [1, 2, 4] \<rparr>
   \<and> encode (HammingCode_init 3) [1, 0, 1, 1] = Inr [0, 1, 1, 0, 0, 1, 1]
   \<and> simulate_error (HammingCode_init 3) [0, 1, 1, 0, 0, 1, 1] 3 = Inr [0, 1, 0, 0, 0, 1, 1]
   \<and> decode (HammingCode_init 3) [0, 1, 0, 0, 0, 1, 1] = Inr ([1, 0, 1, 1], True)"
  by code_simp

text \<open>
  C3 as the specification states it fails: the codeword for \<open>[1,0,1,1]\<close> is not
  \<open>[1,1,0,0,1,0,1]\<close>.
\<close>

theorem C3_counterexample:
  "encode (HammingCode_init 3) [1, 0, 1, 1] \<noteq> Inr [1, 1, 0, 0, 1, 0, 1]"
  by code_simp

subsection \<open>C4\<close>

text \<open>
  C4, as the code behaves: constructing an instance never fails. For every \<open>r\<close> it
  yields \<open>n = 2 ^ r - 1\<close> and \<open>k = n - r\<close> (as integers: neither subtraction
  truncates) and the parity positions \<open>2 ^ i\<close> for \<open>0 \<le> i < r\<close>, in increasing order.
\<close>

theorem C4_construction:
  "new r = Inr (HammingCode_init r)
   \<and> self_r (HammingCode_init r) = r
   \<and> int (self_n (HammingCode_init r)) = 2 ^ r - 1
   \<and> int (self_k (HammingCode_init r)) = int (self_n (HammingCode_init r)) - int r
   \<and> parity_positions (HammingCode_init r) = map (\<lambda>i. 2 ^ i) [0..<r]
   \<and> set (parity_positions (HammingCode_init r)) = {2 ^ i |i. i < r}"
proof -
  have k_int: "int (2 ^ r - 1 - r) = int (2 ^ r - 1) - int r"
    by (rule of_nat_diff [OF r_le_n])
  have n_int: "int (2 ^ r - 1) = 2 ^ r - 1"
    by simp
  have pp_set: "set (map (\<lambda>i. (2::nat) ^ i) [0..<r]) = {2 ^ i |i. i < r}"
    by auto
  show ?thesis
    unfolding new_def init_n init_k init_pp init_r
    using k_int n_int pp_set by (intro conjI) (rule refl | assumption)+
qed

text \<open>
  C4 as the specification states it fails: constructing an instance with \<open>r = 0\<close>, which
  is less than 1, succeeds, with \<open>n = 0\<close>, \<open>k = 0\<close> and no parity position.
\<close>

theorem C4_counterexample:
  "new 0 = Inr \<lparr> self_r = 0, self_n = 0, self_k = 0, parity_positions = [] \<rparr>"
  by (simp add: new_def HammingCode_init_def)

subsection \<open>C5\<close>

text \<open>
  C5. For every \<open>r \<ge> 1\<close> and every data sequence of length \<open>k\<close> with bits in \<open>{0,1}\<close>,
  \<open>encode\<close> returns a codeword \<open>c\<close> of length \<open>n\<close>; the bits of \<open>c\<close> at the non-parity
  positions, read in increasing position order, are the data bits in order (data bit
  \<open>j\<close> is at the \<open>j\<close>-th non-parity position); the bit at each parity position \<open>p\<close> is the
  sum modulo 2 of the bits at all other positions \<open>i\<close> in \<open>1..n\<close> with \<open>i AND p \<noteq> 0\<close>; and
  each full parity check over \<open>c\<close> sums to 0 modulo 2.
\<close>

theorem C5_codeword_layout:
  assumes "1 \<le> r"
    and "length data = self_k (HammingCode_init r)"
    and "set data \<subseteq> {0, 1}"
  shows "\<exists>c. encode (HammingCode_init r) data = Inr c
     \<and> length c = self_n (HammingCode_init r)
     \<and> map (\<lambda>i. c ! (i - 1))
         (filter (\<lambda>i. i \<notin> set (parity_positions (HammingCode_init r)))
            [1..<self_n (HammingCode_init r) + 1]) = data
     \<and> (\<forall>j<length data.
          c ! (filter (\<lambda>i. i \<notin> set (parity_positions (HammingCode_init r)))
                 [1..<self_n (HammingCode_init r) + 1] ! j - 1) = data ! j)
     \<and> (\<forall>p\<in>set (parity_positions (HammingCode_init r)).
          c ! (p - 1) = sum_list (map (\<lambda>i. c ! (i - 1))
             (filter (\<lambda>i. i AND p \<noteq> 0 \<and> i \<noteq> p) [1..<self_n (HammingCode_init r) + 1])) mod 2)
     \<and> (\<forall>p\<in>set (parity_positions (HammingCode_init r)).
          sum_list (map (\<lambda>i. c ! (i - 1))
             (filter (\<lambda>i. i AND p \<noteq> 0) [1..<self_n (HammingCode_init r) + 1])) mod 2 = 0)"
proof -
  let ?h = "HammingCode_init r"
  let ?np = "filter (\<lambda>i. i \<notin> set (parity_positions ?h)) [1..<self_n ?h + 1]"
  from encode_layout [OF assms(2)]
  obtain c where c: "encode ?h data = Inr c" "length c = self_n ?h"
    "map (\<lambda>i. c ! (i - 1)) ?np = data"
    "\<forall>p\<in>set (parity_positions ?h).
          c ! (p - 1) = sum_list (map (\<lambda>i. c ! (i - 1))
             (filter (\<lambda>i. i AND p \<noteq> 0 \<and> i \<noteq> p) [1..<self_n ?h + 1])) mod 2"
    "\<forall>p\<in>set (parity_positions ?h).
          sum_list (map (\<lambda>i. c ! (i - 1))
             (filter (\<lambda>i. i AND p \<noteq> 0) [1..<self_n ?h + 1])) mod 2 = 0"
    by blast
  have "\<forall>j<length data. c ! (?np ! j - 1) = data ! j"
  proof (intro allI impI)
    fix j assume j: "j < length data"
    have "length ?np = length data" using c(3) by (metis length_map)
    then have "j < length ?np" using j by simp
    then have "map (\<lambda>i. c ! (i - 1)) ?np ! j = c ! (?np ! j - 1)" by (rule nth_map)
    then show "c ! (?np ! j - 1) = data ! j" by (simp only: c(3))
  qed
  with c show ?thesis by blast
qed

text \<open>C5 at \<open>r = 3\<close> and the data \<open>[1,0,1,1]\<close>.\<close>

theorem C5_witness:
  "(1::nat) \<le> 3 \<and> length [1, 0, 1, 1 :: int] = self_k (HammingCode_init 3)
   \<and> set [1, 0, 1, 1 :: int] \<subseteq> {0, 1}
   \<and> (\<exists>c. encode (HammingCode_init 3) [1, 0, 1, 1] = Inr c
     \<and> length c = self_n (HammingCode_init 3)
     \<and> map (\<lambda>i. c ! (i - 1))
         (filter (\<lambda>i. i \<notin> set (parity_positions (HammingCode_init 3)))
            [1..<self_n (HammingCode_init 3) + 1]) = [1, 0, 1, 1]
     \<and> (\<forall>j<length [1, 0, 1, 1 :: int].
          c ! (filter (\<lambda>i. i \<notin> set (parity_positions (HammingCode_init 3)))
                 [1..<self_n (HammingCode_init 3) + 1] ! j - 1) = [1, 0, 1, 1] ! j)
     \<and> (\<forall>p\<in>set (parity_positions (HammingCode_init 3)).
          c ! (p - 1) = sum_list (map (\<lambda>i. c ! (i - 1))
             (filter (\<lambda>i. i AND p \<noteq> 0 \<and> i \<noteq> p) [1..<self_n (HammingCode_init 3) + 1])) mod 2)
     \<and> (\<forall>p\<in>set (parity_positions (HammingCode_init 3)).
          sum_list (map (\<lambda>i. c ! (i - 1))
             (filter (\<lambda>i. i AND p \<noteq> 0) [1..<self_n (HammingCode_init 3) + 1])) mod 2 = 0))"
proof -
  have h1: "(1::nat) \<le> 3" by simp
  have h2: "length [1, 0, 1, 1 :: int] = self_k (HammingCode_init 3)" by code_simp
  have h3: "set [1, 0, 1, 1 :: int] \<subseteq> {0, 1}" by simp
  from C5_codeword_layout [OF h1 h2 h3] h1 h2 h3
  show ?thesis by (intro conjI)
qed

subsection \<open>C6\<close>

text \<open>
  C6. For every \<open>r \<ge> 1\<close> and every input sequence of length \<open>n\<close> with bits in \<open>{0,1}\<close>, the
  syndrome \<open>decode\<close> computes is the sum of the parity positions whose check is odd, it
  is at most \<open>n\<close>, and when it is not 0 the index \<open>syndrome - 1\<close> is an index of the
  codeword copy: \<open>decode\<close> returns a result and raises no \<open>IndexError\<close>.
\<close>

theorem C6_syndrome_in_range:
  assumes "1 \<le> r"
    and "length codeword = self_n (HammingCode_init r)"
    and "set codeword \<subseteq> {0, 1}"
  shows "syndrome_of (HammingCode_init r) codeword
           = sum_list (map (\<lambda>p. if parity_check (self_n (HammingCode_init r)) codeword p \<noteq> 0
                                  then p else 0)
               (parity_positions (HammingCode_init r)))
     \<and> distinct (parity_positions (HammingCode_init r))
     \<and> syndrome_of (HammingCode_init r) codeword \<le> self_n (HammingCode_init r)
     \<and> (syndrome_of (HammingCode_init r) codeword \<noteq> 0 \<longrightarrow>
          syndrome_of (HammingCode_init r) codeword - 1 < length codeword)
     \<and> (\<exists>data corrected. decode (HammingCode_init r) codeword = Inr (data, corrected))"
proof -
  have "distinct (parity_positions (HammingCode_init r))"
    by (simp only: init_pp pp_distinct)
  with syndrome_of_sum [of "HammingCode_init r" codeword] decode_init_returns [OF assms(2)]
  show ?thesis by blast
qed

text \<open>C6 at \<open>r = 3\<close> and a sequence whose syndrome is 7, the largest position.\<close>

theorem C6_witness:
  "(1::nat) \<le> 3 \<and> length [0, 0, 0, 0, 0, 0, 1 :: int] = self_n (HammingCode_init 3)
   \<and> set [0, 0, 0, 0, 0, 0, 1 :: int] \<subseteq> {0, 1}
   \<and> syndrome_of (HammingCode_init 3) [0, 0, 0, 0, 0, 0, 1] = 7
   \<and> syndrome_of (HammingCode_init 3) [0, 0, 0, 0, 0, 0, 1] \<le> self_n (HammingCode_init 3)
   \<and> syndrome_of (HammingCode_init 3) [0, 0, 0, 0, 0, 0, 1] - 1 < length [0, 0, 0, 0, 0, 0, 1 :: int]
   \<and> (\<exists>data corrected. decode (HammingCode_init 3) [0, 0, 0, 0, 0, 0, 1] = Inr (data, corrected))"
proof -
  have h1: "(1::nat) \<le> 3" by simp
  have h2: "length [0, 0, 0, 0, 0, 0, 1 :: int] = self_n (HammingCode_init 3)" by code_simp
  have h3: "set [0, 0, 0, 0, 0, 0, 1 :: int] \<subseteq> {0, 1}" by simp
  have s: "syndrome_of (HammingCode_init 3) [0, 0, 0, 0, 0, 0, 1] = 7" by code_simp
  from C6_syndrome_in_range [OF h1 h2 h3] h1 h2 h3 s
  show ?thesis by simp
qed

subsection \<open>C7\<close>

text \<open>
  C7. For every \<open>r \<ge> 1\<close>: \<open>encode\<close> raises exactly when the length of its input differs
  from \<open>k\<close>, and then it raises the \<^verbatim>\<open>ValueError\<close> of the length check; \<open>decode\<close> raises
  exactly when the length of its input differs from \<open>n\<close>, and then it raises the
  \<^verbatim>\<open>ValueError\<close> of the length check; on an input of the right length each returns a
  result.
\<close>

theorem C7_length_checks:
  assumes "1 \<le> r"
  shows "(length data \<noteq> self_k (HammingCode_init r) \<longrightarrow>
       encode (HammingCode_init r) data = Inl (ValueError ''Data length must be '' (self_k (HammingCode_init r))))
   \<and> (length data = self_k (HammingCode_init r) \<longrightarrow>
       (\<exists>c. encode (HammingCode_init r) data = Inr c))
   \<and> ((\<exists>e. encode (HammingCode_init r) data = Inl e) \<longleftrightarrow> length data \<noteq> self_k (HammingCode_init r))
   \<and> (length codeword \<noteq> self_n (HammingCode_init r) \<longrightarrow>
       decode (HammingCode_init r) codeword = Inl (ValueError ''Codeword length must be '' (self_n (HammingCode_init r))))
   \<and> (length codeword = self_n (HammingCode_init r) \<longrightarrow>
       (\<exists>d b. decode (HammingCode_init r) codeword = Inr (d, b)))
   \<and> ((\<exists>e. decode (HammingCode_init r) codeword = Inl e) \<longleftrightarrow> length codeword \<noteq> self_n (HammingCode_init r))"
proof -
  let ?h = "HammingCode_init r"
  have e1: "length data \<noteq> self_k ?h \<longrightarrow>
       encode ?h data = Inl (ValueError ''Data length must be '' (self_k ?h))"
    by (simp add: encode_def)
  have e2: "length data = self_k ?h \<longrightarrow> (\<exists>c. encode ?h data = Inr c)"
    using encode_then_decode [of data r] by blast
  have e3: "(\<exists>e. encode ?h data = Inl e) \<longleftrightarrow> length data \<noteq> self_k ?h"
    using e1 e2 by (cases "length data = self_k ?h") auto
  have d1: "length codeword \<noteq> self_n ?h \<longrightarrow>
       decode ?h codeword = Inl (ValueError ''Codeword length must be '' (self_n ?h))"
    by (simp add: decode_def)
  have d2: "length codeword = self_n ?h \<longrightarrow> (\<exists>d b. decode ?h codeword = Inr (d, b))"
    using decode_init_returns [of codeword r] by blast
  have d3: "(\<exists>e. decode ?h codeword = Inl e) \<longleftrightarrow> length codeword \<noteq> self_n ?h"
    using d1 d2 by (cases "length codeword = self_n ?h") auto
  from e1 e2 e3 d1 d2 d3 show ?thesis by (intro conjI)
qed

text \<open>
  C7 at \<open>r = 3\<close> (\<open>k = 4\<close>, \<open>n = 7\<close>): inputs of the lengths \<open>k - 1\<close>, \<open>k + 1\<close>, \<open>n - 1\<close> and
  \<open>n + 1\<close> raise, inputs of the lengths \<open>k\<close> and \<open>n\<close> do not.
\<close>

theorem C7_witness:
  "(1::nat) \<le> 3
   \<and> encode (HammingCode_init 3) [1, 0, 1] = Inl (ValueError ''Data length must be '' 4)
   \<and> encode (HammingCode_init 3) [1, 0, 1, 1, 0] = Inl (ValueError ''Data length must be '' 4)
   \<and> (\<exists>c. encode (HammingCode_init 3) [1, 0, 1, 1] = Inr c)
   \<and> decode (HammingCode_init 3) [0, 1, 1, 0, 0, 1] = Inl (ValueError ''Codeword length must be '' 7)
   \<and> decode (HammingCode_init 3) [0, 1, 1, 0, 0, 1, 1, 0] = Inl (ValueError ''Codeword length must be '' 7)
   \<and> (\<exists>d b. decode (HammingCode_init 3) [0, 1, 1, 0, 0, 1, 1] = Inr (d, b))"
proof -
  have h1: "(1::nat) \<le> 3" by simp
  have k: "self_k (HammingCode_init 3) = 4" by code_simp
  have n: "self_n (HammingCode_init 3) = 7" by code_simp
  from C7_length_checks [OF h1, of "[1, 0, 1]" "[0, 1, 1, 0, 0, 1]"]
       C7_length_checks [OF h1, of "[1, 0, 1, 1, 0]" "[0, 1, 1, 0, 0, 1, 1, 0]"]
       C7_length_checks [OF h1, of "[1, 0, 1, 1]" "[0, 1, 1, 0, 0, 1, 1]"]
       h1
  show ?thesis by (simp add: k n)
qed

subsection \<open>C8\<close>

text \<open>
  C8. For every \<open>r \<ge> 1\<close>, every reference \<open>codeword\<close> to a list of length \<open>n\<close> and every
  integer \<open>pos\<close>: \<open>simulate_error\<close> raises exactly when \<open>pos < 1\<close> or \<open>pos > n\<close>, and then it
  raises the \<^verbatim>\<open>IndexError\<close> of the range check and leaves the store as it was. Otherwise
  it returns a reference \<open>cw\<close> to a new list, of the same length, equal to the input at
  every position except \<open>pos\<close>, where the element is the input's XOR 1 (for a bit, the
  inverted bit); the value agrees with \<open>simulate_error\<close> on values. In every case the
  list \<open>codeword\<close> refers to, and every other list of the store, is unchanged.
\<close>

theorem C8_simulate_error:
  assumes "1 \<le> r"
    and "codeword < length s"
    and "length (s ! codeword) = self_n (HammingCode_init r)"
  shows "(pos < 1 \<or> pos > int (self_n (HammingCode_init r)) \<longrightarrow>
       simulate_error_store (HammingCode_init r) codeword pos s
         = (Inl (IndexError ''Position out of range''), s))
   \<and> ((\<exists>e. fst (simulate_error_store (HammingCode_init r) codeword pos s) = Inl e)
        \<longleftrightarrow> pos < 1 \<or> pos > int (self_n (HammingCode_init r)))
   \<and> (1 \<le> pos \<and> pos \<le> int (self_n (HammingCode_init r)) \<longrightarrow>
       (\<exists>cw s'. simulate_error_store (HammingCode_init r) codeword pos s = (Inr cw, s')
          \<and> cw \<noteq> codeword \<and> cw < length s'
          \<and> length (s' ! cw) = length (s ! codeword)
          \<and> s' ! cw ! nat (pos - 1) = (s ! codeword ! nat (pos - 1)) XOR 1
          \<and> (s ! codeword ! nat (pos - 1) \<in> {0, 1} \<longrightarrow>
               s' ! cw ! nat (pos - 1) = 1 - s ! codeword ! nat (pos - 1))
          \<and> (\<forall>i<length (s ! codeword). i \<noteq> nat (pos - 1) \<longrightarrow> s' ! cw ! i = s ! codeword ! i)
          \<and> simulate_error (HammingCode_init r) (s ! codeword) pos = Inr (s' ! cw)))
   \<and> (\<forall>a<length s. snd (simulate_error_store (HammingCode_init r) codeword pos s) ! a = s ! a)"
proof -
  let ?h = "HammingCode_init r"
  let ?i = "nat (pos - 1)"
  let ?x = "s ! codeword"
  have out: "pos < 1 \<or> pos > int (self_n ?h) \<longrightarrow>
       simulate_error_store ?h codeword pos s = (Inl (IndexError ''Position out of range''), s)"
    by (simp add: simulate_error_store_eq)
  have inr: "1 \<le> pos \<and> pos \<le> int (self_n ?h) \<longrightarrow>
       simulate_error_store ?h codeword pos s = (Inr (length s), s @ [?x[?i := (?x ! ?i) XOR 1]])"
  proof
    assume p: "1 \<le> pos \<and> pos \<le> int (self_n ?h)"
    then have "?i < length ?x" using assms(3) by linarith
    then show "simulate_error_store ?h codeword pos s
        = (Inr (length s), s @ [?x[?i := (?x ! ?i) XOR 1]])"
      using p by (simp add: simulate_error_store_eq)
  qed
  have fails: "(\<exists>e. fst (simulate_error_store ?h codeword pos s) = Inl e)
        \<longleftrightarrow> pos < 1 \<or> pos > int (self_n ?h)"
    using out inr by (cases "pos < 1 \<or> pos > int (self_n ?h)") auto
  have ok: "1 \<le> pos \<and> pos \<le> int (self_n ?h) \<longrightarrow>
       (\<exists>cw s'. simulate_error_store ?h codeword pos s = (Inr cw, s')
          \<and> cw \<noteq> codeword \<and> cw < length s'
          \<and> length (s' ! cw) = length ?x
          \<and> s' ! cw ! ?i = (?x ! ?i) XOR 1
          \<and> (?x ! ?i \<in> {0, 1} \<longrightarrow> s' ! cw ! ?i = 1 - ?x ! ?i)
          \<and> (\<forall>i<length ?x. i \<noteq> ?i \<longrightarrow> s' ! cw ! i = ?x ! i)
          \<and> simulate_error ?h ?x pos = Inr (s' ! cw))"
  proof
    assume p: "1 \<le> pos \<and> pos \<le> int (self_n ?h)"
    let ?y = "?x[?i := (?x ! ?i) XOR 1]"
    let ?s' = "s @ [?y]"
    have i: "?i < length ?x" using p assms(3) by linarith
    have 1: "simulate_error_store ?h codeword pos s = (Inr (length s), ?s')"
      using inr p by blast
    have 2: "length s \<noteq> codeword" using assms(2) by simp
    have 3: "length s < length ?s'" by simp
    have new: "?s' ! length s = ?y" by simp
    have 4: "length (?s' ! length s) = length ?x" by (simp only: new length_list_update)
    have 5: "?s' ! length s ! ?i = (?x ! ?i) XOR 1" using i by (simp only: new nth_list_update_eq)
    have 6: "?x ! ?i \<in> {0, 1} \<longrightarrow> ?s' ! length s ! ?i = 1 - ?x ! ?i"
      using 5 by auto
    have 7: "\<forall>j<length ?x. j \<noteq> ?i \<longrightarrow> ?s' ! length s ! j = ?x ! j"
      by (simp only: new) simp
    have 8: "simulate_error ?h ?x pos = Inr (?s' ! length s)"
      using p assms(3) by (simp only: new simulate_error_in_range)
    from 1 2 3 4 5 6 7 8
    show "\<exists>cw s'. simulate_error_store ?h codeword pos s = (Inr cw, s')
          \<and> cw \<noteq> codeword \<and> cw < length s'
          \<and> length (s' ! cw) = length ?x
          \<and> s' ! cw ! ?i = (?x ! ?i) XOR 1
          \<and> (?x ! ?i \<in> {0, 1} \<longrightarrow> s' ! cw ! ?i = 1 - ?x ! ?i)
          \<and> (\<forall>i<length ?x. i \<noteq> ?i \<longrightarrow> s' ! cw ! i = ?x ! i)
          \<and> simulate_error ?h ?x pos = Inr (s' ! cw)"
      by blast
  qed
  have frame: "\<forall>a<length s. snd (simulate_error_store ?h codeword pos s) ! a = s ! a"
  proof -
    obtain new where "snd (simulate_error_store ?h codeword pos s) = s @ new"
      using simulate_error_store_frame by blast
    then show ?thesis by (simp add: nth_append)
  qed
  from out fails ok frame show ?thesis by (intro conjI)
qed

text \<open>
  C8 at \<open>r = 3\<close> and a store whose only list is \<open>[0,1,1,0,0,1,1]\<close>: the positions 0 and
  8 raise, the position 3 returns a new list with the third bit inverted, and the list
  passed in is as it was.
\<close>

theorem C8_witness:
  "(1::nat) \<le> 3 \<and> (0::nat) < length [[0, 1, 1, 0, 0, 1, 1 :: int]]
   \<and> length ([[0, 1, 1, 0, 0, 1, 1 :: int]] ! 0) = self_n (HammingCode_init 3)
   \<and> simulate_error_store (HammingCode_init 3) 0 0 [[0, 1, 1, 0, 0, 1, 1]]
        = (Inl (IndexError ''Position out of range''), [[0, 1, 1, 0, 0, 1, 1]])
   \<and> simulate_error_store (HammingCode_init 3) 0 8 [[0, 1, 1, 0, 0, 1, 1]]
        = (Inl (IndexError ''Position out of range''), [[0, 1, 1, 0, 0, 1, 1]])
   \<and> (\<exists>cw s'. simulate_error_store (HammingCode_init 3) 0 3 [[0, 1, 1, 0, 0, 1, 1]] = (Inr cw, s')
         \<and> cw \<noteq> 0 \<and> s' ! cw ! 2 = 0 \<and> s' ! cw ! 1 = 1
         \<and> simulate_error (HammingCode_init 3) [0, 1, 1, 0, 0, 1, 1] 3 = Inr (s' ! cw))
   \<and> snd (simulate_error_store (HammingCode_init 3) 0 3 [[0, 1, 1, 0, 0, 1, 1]]) ! 0
        = [0, 1, 1, 0, 0, 1, 1]"
proof -
  have h1: "(1::nat) \<le> 3" by simp
  have h2: "(0::nat) < length [[0, 1, 1, 0, 0, 1, 1 :: int]]" by simp
  have n: "self_n (HammingCode_init 3) = 7" by code_simp
  have h3: "length ([[0, 1, 1, 0, 0, 1, 1 :: int]] ! 0) = self_n (HammingCode_init 3)"
    by (simp add: n)
  have a: "simulate_error_store (HammingCode_init 3) 0 0 [[0, 1, 1, 0, 0, 1, 1]]
        = (Inl (IndexError ''Position out of range''), [[0, 1, 1, 0, 0, 1, 1]])"
    using C8_simulate_error [OF h1 h2 h3, of 0] by simp
  have b: "simulate_error_store (HammingCode_init 3) 0 8 [[0, 1, 1, 0, 0, 1, 1]]
        = (Inl (IndexError ''Position out of range''), [[0, 1, 1, 0, 0, 1, 1]])"
    using C8_simulate_error [OF h1 h2 h3, of 8] by (simp add: n)
  have c: "\<exists>cw s'. simulate_error_store (HammingCode_init 3) 0 3 [[0, 1, 1, 0, 0, 1, 1]] = (Inr cw, s')
         \<and> cw \<noteq> 0 \<and> s' ! cw ! 2 = 0 \<and> s' ! cw ! 1 = 1
         \<and> simulate_error (HammingCode_init 3) [0, 1, 1, 0, 0, 1, 1] 3 = Inr (s' ! cw)"
    using C8_simulate_error [OF h1 h2 h3, of 3] by (simp add: n) fastforce
  have d: "snd (simulate_error_store (HammingCode_init 3) 0 3 [[0, 1, 1, 0, 0, 1, 1]]) ! 0
        = [0, 1, 1, 0, 0, 1, 1]"
    using C8_simulate_error [OF h1 h2 h3, of 3] by simp
  from h1 h2 h3 a b c d show ?thesis by (intro conjI)
qed

subsection \<open>C9\<close>

text \<open>
  C9. For every \<open>r \<ge> 1\<close>, every sequence \<open>x\<close> of length \<open>n\<close> with bits in \<open>{0,1}\<close> and every
  position \<open>p\<close> with \<open>1 \<le> p \<le> n\<close>: \<open>simulate_error\<close> applied twice at \<open>p\<close> returns \<open>x\<close>.
\<close>

theorem C9_flip_twice:
  assumes "1 \<le> r"
    and "length x = self_n (HammingCode_init r)"
    and "set x \<subseteq> {0, 1}"
    and "1 \<le> p" and "p \<le> int (self_n (HammingCode_init r))"
  shows "\<exists>y. simulate_error (HammingCode_init r) x p = Inr y
           \<and> simulate_error (HammingCode_init r) y p = Inr x"
  using assms(2,4,5) by (rule simulate_error_twice)

text \<open>C9 at \<open>r = 2\<close>, the sequence \<open>[1,0,1]\<close> and the position 2.\<close>

theorem C9_witness:
  "(1::nat) \<le> 2 \<and> length [1, 0, 1 :: int] = self_n (HammingCode_init 2)
   \<and> set [1, 0, 1 :: int] \<subseteq> {0, 1}
   \<and> (1::int) \<le> 2 \<and> (2::int) \<le> int (self_n (HammingCode_init 2))
   \<and> (\<exists>y. simulate_error (HammingCode_init 2) [1, 0, 1] 2 = Inr y
           \<and> simulate_error (HammingCode_init 2) y 2 = Inr [1, 0, 1])"
proof -
  have h1: "(1::nat) \<le> 2" by simp
  have h2: "length [1, 0, 1 :: int] = self_n (HammingCode_init 2)" by code_simp
  have h3: "set [1, 0, 1 :: int] \<subseteq> {0, 1}" by simp
  have h4: "(1::int) \<le> 2" by simp
  have h5: "(2::int) \<le> int (self_n (HammingCode_init 2))" by code_simp
  from C9_flip_twice [OF h1 h2 h3 h4 h5] h1 h2 h3 h4 h5
  show ?thesis by (intro conjI)
qed

subsection \<open>C10\<close>

text \<open>
  C10. For every \<open>r \<ge> 1\<close> and every reference \<open>codeword\<close> to a list of length \<open>n\<close>:
  \<open>decode\<close> returns a reference \<open>data\<close> to a new list and the flag \<open>corrected\<close>, which is
  true exactly when the syndrome is not 0; after the call the list \<open>codeword\<close> refers
  to, and every other list that was in the store, is what it was before the call, also
  when a correction was applied; the result agrees with \<open>decode\<close> on values.
\<close>

theorem C10_decode_keeps_argument:
  assumes "1 \<le> r"
    and "codeword < length s"
    and "length (s ! codeword) = self_n (HammingCode_init r)"
  shows "(\<exists>data corrected s'.
       decode_store (HammingCode_init r) codeword s = (Inr (data, corrected), s')
     \<and> s' ! codeword = s ! codeword
     \<and> (\<forall>a<length s. s' ! a = s ! a)
     \<and> data \<noteq> codeword
     \<and> corrected = (syndrome_of (HammingCode_init r) (s ! codeword) \<noteq> 0)
     \<and> decode (HammingCode_init r) (s ! codeword) = Inr (s' ! data, corrected))"
proof -
  let ?h = "HammingCode_init r"
  let ?x = "s ! codeword"
  from decode_init_returns [OF assms(3)]
  obtain d b where v: "decode ?h ?x = Inr (d, b)" by blast
  obtain res s' where rs: "decode_store ?h codeword s = (res, s')"
    by (cases "decode_store ?h codeword s") blast
  from decode_store_refines [of ?h s codeword] v rs
  obtain data where res: "res = Inr (data, b)" and dat: "s' ! data = d"
    by (auto split: sum.splits prod.splits)
  obtain new where "snd (decode_store ?h codeword s) = s @ new"
    using decode_store_frame by blast
  then have s': "s' = s @ new" using rs by simp
  have frame: "\<forall>a<length s. s' ! a = s ! a" by (simp add: s' nth_append)
  then have same: "s' ! codeword = s ! codeword" using assms(2) by blast
  have fresh: "data \<noteq> codeword"
    using rs res assms(2) by (auto simp: decode_store_eq split: if_splits)
  have flag: "b = (syndrome_of ?h ?x \<noteq> 0)"
    using rs res by (auto simp: decode_store_eq split: if_splits)
  from rs res dat v frame same fresh flag show ?thesis by blast
qed

text \<open>
  C10 at \<open>r = 3\<close> and a store whose only list is \<open>[0,1,0,0,0,1,1]\<close>, a codeword with the
  bit at position 3 flipped: a correction is applied, and the list is as it was.
\<close>

theorem C10_witness:
  "(1::nat) \<le> 3 \<and> (0::nat) < length [[0, 1, 0, 0, 0, 1, 1 :: int]]
   \<and> length ([[0, 1, 0, 0, 0, 1, 1 :: int]] ! 0) = self_n (HammingCode_init 3)
   \<and> syndrome_of (HammingCode_init 3) ([[0, 1, 0, 0, 0, 1, 1 :: int]] ! 0) = 3
   \<and> (\<exists>data corrected s'.
       decode_store (HammingCode_init 3) 0 [[0, 1, 0, 0, 0, 1, 1 :: int]] = (Inr (data, corrected), s')
     \<and> s' ! 0 = [[0, 1, 0, 0, 0, 1, 1 :: int]] ! 0
     \<and> (\<forall>a<length [[0, 1, 0, 0, 0, 1, 1 :: int]]. s' ! a = [[0, 1, 0, 0, 0, 1, 1 :: int]] ! a)
     \<and> data \<noteq> 0
     \<and> corrected = (syndrome_of (HammingCode_init 3) ([[0, 1, 0, 0, 0, 1, 1 :: int]] ! 0) \<noteq> 0)
     \<and> decode (HammingCode_init 3) ([[0, 1, 0, 0, 0, 1, 1 :: int]] ! 0) = Inr (s' ! data, corrected))"
proof -
  have h1: "(1::nat) \<le> 3" by simp
  have h2: "(0::nat) < length [[0, 1, 0, 0, 0, 1, 1 :: int]]" by simp
  have h3: "length ([[0, 1, 0, 0, 0, 1, 1 :: int]] ! 0) = self_n (HammingCode_init 3)"
    by code_simp
  have syn: "syndrome_of (HammingCode_init 3) ([[0, 1, 0, 0, 0, 1, 1]] ! 0) = 3"
    by code_simp
  from h1 h2 h3 syn C10_decode_keeps_argument [OF h1 h2 h3]
  show ?thesis by (intro conjI)
qed

end
